theory Spec2Isabelle
  imports Main
begin

section \<open>JavaScript values\<close>

text \<open>
  Rows, errors and written objects are untyped on the JavaScript side (\<open>T\<close>, \<open>any\<close>), and
  the code branches on their truthiness (\<open>if (result)\<close>, \<open>if (error)\<close>,
  \<open>error || err\<close>). Numbers are integers here (no \<open>NaN\<close>); \<open>JErr\<close> is an
  \<open>Error\<close> object with its message; \<open>JObj\<close> lists the own enumerable properties
  in the order \<open>Object.keys\<close> enumerates them.
\<close>

datatype jsval =
    JUndefined
  | JNull
  | JBool bool
  | JNum int
  | JStr string
  | JErr string
  | JArr "jsval list"
  | JObj "(string \<times> jsval) list"

fun truthy :: "jsval \<Rightarrow> bool" where
  "truthy JUndefined = False"
| "truthy JNull = False"
| "truthy (JBool b) = b"
| "truthy (JNum n) = (n \<noteq> 0)"
| "truthy (JStr s) = (s \<noteq> [])"
| "truthy (JErr m) = True"
| "truthy (JArr xs) = True"
| "truthy (JObj kvs) = True"

text \<open>\<open>a || b\<close>\<close>

definition js_or :: "jsval \<Rightarrow> jsval \<Rightarrow> jsval" where
  "js_or a b = (if truthy a then a else b)"

section \<open>The reader\<close>

text \<open>
  The closure variables of \<open>reader\<close> become the fields of a record: \<open>error\<close>,
  \<open>callback\<close>, \<open>stopped\<close>, \<open>done\<close>, \<open>paused\<close> carry the prefix \<open>r_\<close>
  (\<open>done\<close> is a keyword), \<open>received\<close> is the buffer, \<open>r_request\<close> says that
  \<open>request\<close> is not \<open>null\<close> (its listeners are removed exactly when it is set to
  \<open>null\<close>), \<open>opts_close\<close> that \<open>opts.close\<close> is set, \<open>wrapped\<close> that
  \<open>withClose\<close> wrapped the two functions (decided once, when the reader is built).
  The stored callback is the continuation of a \<open>wait\<close>: of the read function or of
  \<open>stop\<close>. Everything the reader does to the outside is appended to \<open>out\<close>, in
  order: commands to the connection and its socket, calls of a \<open>wait\<close> callback
  (\<open>Resolve cb err result\<close>), calls of the release hook, and an exception that leaves
  a handler (\<open>Throw\<close>).
\<close>

datatype cbkind = ReadCb | StopCb

datatype r_action =
    ExecSql
  | Pause
  | Resume
  | Cancel
  | RemoveAllListeners
  | Resolve cbkind jsval jsval
  | CloseHook
  | Throw string

record reader_state =
  r_error :: jsval
  r_callback :: "cbkind option"
  r_stopped :: bool
  r_done :: bool
  r_paused :: bool
  received :: "jsval list"
  r_request :: bool
  opts_close :: bool
  wrapped :: bool
  out :: "r_action list"

definition low :: nat where
  "low = 0"

definition high :: nat where
  "high = 2"

definition emit :: "r_action \<Rightarrow> reader_state \<Rightarrow> reader_state" where
  "emit a s = s\<lparr>out := out s @ [a]\<rparr>"

definition push :: "jsval \<Rightarrow> reader_state \<Rightarrow> reader_state" where
  "push record s =
     (let s1 = s\<lparr>received := received s @ [record]\<rparr>
      in if length (received s1) = high then (emit Pause s1)\<lparr>r_paused := True\<rparr> else s1)"

text \<open>\<open>received.shift()\<close> on an empty array returns \<open>undefined\<close>.\<close>

definition shift :: "reader_state \<Rightarrow> jsval \<times> reader_state" where
  "shift s =
     (let s1 = (if length (received s) = low + 1
                then emit Resume (s\<lparr>r_paused := False\<rparr>) else s)
      in case received s1 of
           [] \<Rightarrow> (JUndefined, s1)
         | x # xs \<Rightarrow> (x, s1\<lparr>received := xs\<rparr>))"

text \<open>
  The \<open>finally\<close> block of the function \<open>withClose\<close> returns; when \<open>opts.close\<close>
  was absent \<open>withClose\<close> returned \<open>fn\<close> itself and there is no such block.
\<close>

definition withClose_finally :: "reader_state \<Rightarrow> reader_state" where
  "withClose_finally s =
     (if wrapped s
      then (if opts_close s then emit CloseHook s else s)\<lparr>opts_close := False\<rparr>
      else s)"

text \<open>
  Calling a \<open>wait\<close> callback ends that \<open>wait\<close>: the wrapped function returns (or
  throws) and its \<open>finally\<close> block runs.
\<close>

definition resolve :: "cbkind \<Rightarrow> jsval \<Rightarrow> jsval \<Rightarrow> reader_state \<Rightarrow> reader_state" where
  "resolve cb err res s = withClose_finally (emit (Resolve cb err res) s)"

definition send :: "jsval \<Rightarrow> jsval \<Rightarrow> reader_state \<Rightarrow> reader_state" where
  "send err result s =
     (case r_callback s of
        Some cb \<Rightarrow>
          (let s1 = s\<lparr>r_callback := None\<rparr>
           in if truthy result then resolve cb err result s1
              else resolve cb JNull JUndefined (s1\<lparr>r_done := True\<rparr>))
      | None \<Rightarrow>
          (let s1 = s\<lparr>r_error := js_or (r_error s) err\<rparr>
           in if truthy result then push result s1
              else s1\<lparr>r_done := True\<rparr>))"

text \<open>\<open>if (request) request.removeAllListeners(); request = null;\<close>\<close>

definition release_request :: "reader_state \<Rightarrow> reader_state" where
  "release_request s =
     (if r_request s then emit RemoveAllListeners s else s)\<lparr>r_request := False\<rparr>"

text \<open>The body of the read function, run when the caller pulls.\<close>

definition read :: "reader_state \<Rightarrow> reader_state" where
  "read s =
     (if truthy (r_error s)
      then resolve ReadCb (r_error s) JUndefined (release_request s)
      else if length (received s) \<noteq> 0
      then (case shift s of (row, s1) \<Rightarrow> resolve ReadCb JUndefined row s1)
      else if r_done s
      then resolve ReadCb JUndefined JUndefined (release_request s)
      else s\<lparr>r_callback := Some ReadCb\<rparr>)"

text \<open>
  The body of \<open>stop\<close>. The callback \<open>wait\<close> passes is always a function, so the
  \<open>bad callback\<close> branch is not reachable.
\<close>

definition stop :: "reader_state \<Rightarrow> reader_state" where
  "stop s =
     (if r_done s then resolve StopCb JUndefined JUndefined s
      else (emit Cancel (s\<lparr>r_stopped := True\<rparr>))\<lparr>r_callback := Some StopCb\<rparr>)"

text \<open>
  The completion callback of the request. \<open>request.removeAllListeners()\<close> is called
  without a test: when a pull has already set \<open>request\<close> to \<open>null\<close> it throws a
  \<open>TypeError\<close> and nothing else happens.
\<close>

definition on_complete :: "jsval \<Rightarrow> reader_state \<Rightarrow> string + reader_state" where
  "on_complete err s =
     (if \<not> r_request s then Inl ''TypeError''
      else Inr (send (if r_stopped s then JNull else err) JUndefined
                  ((emit RemoveAllListeners s)\<lparr>r_request := False\<rparr>)))"

definition on_row :: "jsval \<Rightarrow> reader_state \<Rightarrow> reader_state" where
  "on_row row s = (if r_stopped s then s else send JNull row s)"

datatype r_event = RowEv jsval | CompleteEv jsval | Pull | Stop

text \<open>
  One event at a time: every handler runs to its end before the next event. A row
  event reaches \<open>on_row\<close> only while the listener is attached.
\<close>

fun reader_step :: "reader_state \<Rightarrow> r_event \<Rightarrow> reader_state" where
  "reader_step s (RowEv row) = (if r_request s then on_row row s else s)"
| "reader_step s (CompleteEv err) =
     (case on_complete err s of Inl x \<Rightarrow> emit (Throw x) s | Inr s' \<Rightarrow> s')"
| "reader_step s Pull = read s"
| "reader_step s Stop = stop s"

definition reader_run :: "reader_state \<Rightarrow> r_event list \<Rightarrow> reader_state" where
  "reader_run s es = foldl reader_step s es"

text \<open>The state in which \<open>reader\<close> returns, after \<open>connection.execSql(request)\<close>.\<close>

definition reader_start :: "bool \<Rightarrow> reader_state" where
  "reader_start hc =
     \<lparr>r_error = JNull, r_callback = None, r_stopped = False, r_done = False,
      r_paused = False, received = [], r_request = True, opts_close = hc, wrapped = hc,
      out = [ExecSql]\<rparr>"

record reader_options =
  has_close :: bool
  has_fillParameters :: bool

definition reader :: "reader_options \<Rightarrow> string + reader_state" where
  "reader opts =
     (if \<not> has_fillParameters opts then Inl ''fillParameters option missing''
      else Inr (reader_start (has_close opts)))"

text \<open>
  What the caller of a pull sees: \<open>wait\<close> throws a truthy \<open>err\<close>, and returns the
  result otherwise, \<open>undefined\<close> meaning the end of the stream.
\<close>

datatype outcome = RowOut jsval | EndOfStream | Failed jsval

definition outcome_of :: "jsval \<Rightarrow> jsval \<Rightarrow> outcome" where
  "outcome_of err res =
     (if truthy err then Failed err
      else if res = JUndefined then EndOfStream else RowOut res)"

fun results_of :: "cbkind \<Rightarrow> r_action list \<Rightarrow> outcome list" where
  "results_of k [] = []"
| "results_of k (Resolve cb err res # as) =
     (if cb = k then outcome_of err res # results_of k as else results_of k as)"
| "results_of k (a # as) = results_of k as"

definition pull_results :: "reader_state \<Rightarrow> outcome list" where
  "pull_results s = results_of ReadCb (out s)"

definition stop_results :: "reader_state \<Rightarrow> outcome list" where
  "stop_results s = results_of StopCb (out s)"

text \<open>
  The caller's side of the bridge: a pull or a stop is called only when no call is
  outstanding.
\<close>

fun is_call :: "r_event \<Rightarrow> bool" where
  "is_call Pull = True"
| "is_call Stop = True"
| "is_call e = False"

fun one_outstanding :: "reader_state \<Rightarrow> r_event list \<Rightarrow> bool" where
  "one_outstanding s [] = True"
| "one_outstanding s (e # es) =
     ((if is_call e then r_callback s = None else True) \<and> one_outstanding (reader_step s e) es)"

section \<open>The writer\<close>

text \<open>
  The closure variables of \<open>writer\<close>: \<open>done\<close> and \<open>callback\<close> carry the prefix
  \<open>w_\<close>; a callback is named by the number of the write call that passed it.
  \<open>err_listener\<close> says that \<open>processError\<close> is attached to the connection.
\<close>

type_synonym params = "(string \<times> jsval) list"

datatype w_action =
    DescribeColumns
  | Prepare
  | AddErrorListener
  | RemoveErrorListener
  | Execute params
  | Unprepare
  | WResolve nat jsval

record writer_state =
  w_done :: bool
  w_callback :: "nat option"
  isPreparing :: bool
  pendingParamValues :: "params option"
  shouldUnprepare :: bool
  err_listener :: bool
  w_out :: "w_action list"

definition wemit :: "w_action \<Rightarrow> writer_state \<Rightarrow> writer_state" where
  "wemit a s = s\<lparr>w_out := w_out s @ [a]\<rparr>"

definition remove_listener :: "writer_state \<Rightarrow> writer_state" where
  "remove_listener s = (wemit RemoveErrorListener s)\<lparr>err_listener := False\<rparr>"

definition w_send :: "jsval \<Rightarrow> writer_state \<Rightarrow> writer_state" where
  "w_send err s =
     (case w_callback s of
        Some cb \<Rightarrow> wemit (WResolve cb err) (s\<lparr>w_callback := None\<rparr>)
      | None \<Rightarrow> s\<lparr>w_callback := None\<rparr>)"

definition processError :: "jsval \<Rightarrow> writer_state \<Rightarrow> writer_state" where
  "processError err s = w_send err (remove_listener s)"

text \<open>The completion callback of the writer's request.\<close>

definition w_complete :: "jsval \<Rightarrow> writer_state \<Rightarrow> writer_state" where
  "w_complete err s = (if isPreparing s then s else w_send err s)"

definition on_prepared :: "writer_state \<Rightarrow> writer_state" where
  "on_prepared s =
     (let s1 = s\<lparr>isPreparing := False\<rparr>
      in if shouldUnprepare s1 then (wemit Unprepare s1)\<lparr>shouldUnprepare := False\<rparr>
         else (case pendingParamValues s1 of
                 Some pv \<Rightarrow> wemit (Execute pv) s1
               | None \<Rightarrow> s1))"

text \<open>
  \<open>Array.isArray(obj) ? obj : Object.keys(obj).map(k => obj[k])\<close>: \<open>Object.keys\<close>
  throws a \<open>TypeError\<close> on \<open>null\<close> and \<open>undefined\<close>, gives the indices of a
  string and nothing for a number, a boolean or an \<open>Error\<close>.
\<close>

fun vals_of :: "jsval \<Rightarrow> jsval + jsval list" where
  "vals_of (JArr xs) = Inr xs"
| "vals_of (JObj kvs) = Inr (map snd kvs)"
| "vals_of (JStr s) = Inr (map (\<lambda>c. JStr [c]) s)"
| "vals_of JNull = Inl (JErr ''TypeError'')"
| "vals_of JUndefined = Inl (JErr ''TypeError'')"
| "vals_of v = Inr []"

fun string_of_nat :: "nat \<Rightarrow> string" where
  "string_of_nat n =
     (if n < 10 then [''0123456789'' ! n]
      else string_of_nat (n div 10) @ [''0123456789'' ! (n mod 10)])"

text \<open>\<open>paramValues['p' + index] = value\<close>, in the order of the insertions.\<close>

definition paramValues :: "jsval list \<Rightarrow> params" where
  "paramValues vals = map (\<lambda>(index, v). (''p'' @ string_of_nat index, v)) (enumerate 0 vals)"

text \<open>
  The body of the write function, called with the callback of its \<open>wait\<close> and the
  object to write; \<open>undefined\<close> ends the writing.
\<close>

definition writer_write :: "nat \<Rightarrow> jsval \<Rightarrow> writer_state \<Rightarrow> writer_state" where
  "writer_write cb obj s =
     (if w_done s then s
      else
        (let s1 = s\<lparr>w_callback := Some cb\<rparr>
         in if obj = JUndefined \<and> \<not> w_done s1
            then
              (let s2 = s1\<lparr>w_done := True\<rparr>;
                   s3 = (if isPreparing s2 then s2\<lparr>shouldUnprepare := True\<rparr>
                         else wemit Unprepare s2)
               in remove_listener s3)
            else
              (case vals_of obj of
                 Inr vals \<Rightarrow>
                   (if isPreparing s1 then s1\<lparr>pendingParamValues := Some (paramValues vals)\<rparr>
                    else wemit (Execute (paramValues vals)) s1)
               | Inl err \<Rightarrow>
                   (case w_callback s1 of
                      Some c \<Rightarrow> (wemit (WResolve c err) s1)\<lparr>w_callback := None\<rparr>
                    | None \<Rightarrow> s1))))"

datatype w_event = Write nat jsval | Prepared | Completion jsval | ErrorMessage jsval

fun writer_step :: "writer_state \<Rightarrow> w_event \<Rightarrow> writer_state" where
  "writer_step s (Write cb obj) = writer_write cb obj s"
| "writer_step s Prepared = on_prepared s"
| "writer_step s (Completion err) = w_complete err s"
| "writer_step s (ErrorMessage err) = (if err_listener s then processError err s else s)"

definition writer_run :: "writer_state \<Rightarrow> w_event list \<Rightarrow> writer_state" where
  "writer_run s es = foldl writer_step s es"

text \<open>The state in which \<open>writer\<close> returns.\<close>

definition writer_start :: writer_state where
  "writer_start =
     \<lparr>w_done = False, w_callback = None, isPreparing = True, pendingParamValues = None,
      shouldUnprepare = False, err_listener = True,
      w_out = [DescribeColumns, Prepare, AddErrorListener]\<rparr>"

record writer_options =
  has_connection :: bool
  sql :: string
  has_describeColumns :: bool

definition writer :: "writer_options \<Rightarrow> string + writer_state" where
  "writer opts =
     (if \<not> has_connection opts then Inl ''connection is missing''
      else if sql opts = [] then Inl ''sql query is missing''
      else if \<not> has_describeColumns opts then Inl ''opts.describeColumns is missing''
      else Inr writer_start)"

section \<open>Traces and event lists\<close>

text \<open>
  Projections of the two traces and of lists of events, used to state the properties,
  and the buffer operations taken alone.
\<close>

fun is_execute :: "w_action \<Rightarrow> bool" where
  "is_execute (Execute pv) = True"
| "is_execute a = False"

fun is_resolve :: "w_action \<Rightarrow> bool" where
  "is_resolve (WResolve cb err) = True"
| "is_resolve a = False"

fun is_unprepare :: "w_action \<Rightarrow> bool" where
  "is_unprepare Unprepare = True"
| "is_unprepare a = False"

fun is_write :: "w_event \<Rightarrow> bool" where
  "is_write (Write cb obj) = True"
| "is_write ev = False"

fun is_resolution :: "r_action \<Rightarrow> bool" where
  "is_resolution (Resolve cb err res) = True"
| "is_resolution a = False"

fun is_hook_event :: "r_action \<Rightarrow> bool" where
  "is_hook_event (Resolve cb err res) = True"
| "is_hook_event CloseHook = True"
| "is_hook_event a = False"

definition hook_after_first :: "r_action list \<Rightarrow> r_action list" where
  "hook_after_first rs = (case rs of [] \<Rightarrow> [] | r # rs' \<Rightarrow> r # CloseHook # rs')"

datatype buf_op = Push jsval | Shift

fun buf_step :: "reader_state \<Rightarrow> buf_op \<Rightarrow> reader_state" where
  "buf_step s (Push v) = push v s"
| "buf_step s Shift = snd (shift s)"

definition buf_run :: "reader_state \<Rightarrow> buf_op list \<Rightarrow> reader_state" where
  "buf_run s ops = foldl buf_step s ops"

fun rows_of :: "r_event list \<Rightarrow> jsval list" where
  "rows_of [] = []"
| "rows_of (RowEv v # es) = v # rows_of es"
| "rows_of (e # es) = rows_of es"

fun pulls_of :: "r_event list \<Rightarrow> nat" where
  "pulls_of [] = 0"
| "pulls_of (Pull # es) = Suc (pulls_of es)"
| "pulls_of (e # es) = pulls_of es"

fun streaming :: "r_event \<Rightarrow> bool" where
  "streaming (RowEv v) = truthy v"
| "streaming Pull = True"
| "streaming e = False"

fun is_row :: "r_event \<Rightarrow> bool" where
  "is_row (RowEv v) = True"
| "is_row e = False"

text \<open>
  What holds of the reader while rows (truthy values) arrive and the caller pulls, one
  call at a time, before the completion event: \<open>rows\<close> are the rows that have
  arrived and \<open>n\<close> the number of pulls called.
\<close>

definition stream_inv :: "reader_state \<Rightarrow> jsval list \<Rightarrow> nat \<Rightarrow> bool" where
  "stream_inv s rows n \<longleftrightarrow>
     r_error s = JNull \<and> \<not> r_done s \<and> \<not> r_stopped s \<and> r_request s \<and>
     (\<forall>v\<in>set (received s). truthy v) \<and> stop_results s = [] \<and>
     (case r_callback s of
        None \<Rightarrow> pull_results s @ map RowOut (received s) = map RowOut rows \<and>
                n = length (pull_results s)
      | Some cb \<Rightarrow> cb = ReadCb \<and> received s = [] \<and> pull_results s = map RowOut rows \<and>
                n = Suc (length rows))"

section \<open>The reader: buffer, pulls and stop\<close>

lemmas r_defs = read_def stop_def on_row_def on_complete_def send_def resolve_def
  withClose_finally_def release_request_def push_def shift_def emit_def

lemma reader_run_append: "reader_run s (es @ fs) = reader_run (reader_run s es) fs"
  by (simp add: reader_run_def)

lemma reader_run_Cons: "reader_run s (e # es) = reader_run (reader_step s e) es"
  by (simp add: reader_run_def)

lemma reader_run_Nil: "reader_run s [] = s"
  by (simp add: reader_run_def)

lemma reader_run_snoc: "reader_run s (es @ [e]) = reader_step (reader_run s es) e"
  by (simp add: reader_run_def)

lemma results_of_append: "results_of k (as @ bs) = results_of k as @ results_of k bs"
  by (induction k as rule: results_of.induct) simp_all

lemma rows_of_append: "rows_of (es @ fs) = rows_of es @ rows_of fs"
  by (induction es rule: rows_of.induct) simp_all

lemma pulls_of_append: "pulls_of (es @ fs) = pulls_of es + pulls_of fs"
  by (induction es rule: pulls_of.induct) simp_all

lemma one_outstanding_append:
  "one_outstanding s (es @ fs) \<longleftrightarrow> one_outstanding s es \<and> one_outstanding (reader_run s es) fs"
  by (induction es arbitrary: s) (auto simp: reader_run_Nil reader_run_Cons)

lemma outcome_of_row: "truthy v \<Longrightarrow> outcome_of JUndefined v = RowOut v"
  by (cases v) (simp_all add: outcome_of_def)

lemma outcome_of_null_row: "truthy v \<Longrightarrow> outcome_of JNull v = RowOut v"
  by (cases v) (simp_all add: outcome_of_def)

lemma take_pad: "take n (xs @ replicate m e) = take n xs @ replicate (min m (n - length xs)) e"
  by (simp add: min.commute)

lemma take_pad_Suc: "take k (ys @ replicate (Suc k) e) = take k (ys @ replicate k e)"
proof -
  have "min (Suc k) (k - length ys) = min k (k - length ys)" by simp
  then show ?thesis by (simp only: take_pad)
qed

lemma take_pad_ge: "k \<le> m \<Longrightarrow> take k (ys @ replicate m e) = take k (ys @ replicate k e)"
proof -
  assume "k \<le> m"
  then have "min m (k - length ys) = min k (k - length ys)" by simp
  then show ?thesis by (simp only: take_pad)
qed

subsection \<open>The watermarks\<close>

text \<open>
  C3, as the code has it. In any state, so at every point of every sequence of
  \<open>push\<close> and \<open>shift\<close>: \<open>push\<close> appends the row and pauses the socket
  exactly when the length it reaches is \<open>high\<close>; \<open>shift\<close> removes the head and
  resumes the socket exactly when it removes a row and the length it reaches is
  \<open>low\<close>. Nothing bounds the length: \<open>push\<close> always appends.
\<close>

theorem buffer_watermarks:
  "received (buf_step s (Push v)) = received s @ [v] \<and>
   out (buf_step s (Push v)) =
     out s @ (if length (received (buf_step s (Push v))) = high then [Pause] else []) \<and>
   received (buf_step s Shift) = tl (received s) \<and>
   out (buf_step s Shift) =
     out s @ (if length (received s) \<noteq> 0 \<and> length (received (buf_step s Shift)) = low
              then [Resume] else [])"
  by (cases "received s") (auto simp: push_def shift_def emit_def Let_def low_def high_def)

theorem buffer_watermarks_witness:
  "out (buf_run (reader_start False) [Push (JNum 1), Push (JNum 2)]) = [ExecSql, Pause] \<and>
   out (buf_step (buf_run (reader_start False) [Push (JNum 1), Push (JNum 2)]) (Push (JNum 3)))
     = [ExecSql, Pause] \<and>
   out (buf_run (reader_start False) [Push (JNum 1), Push (JNum 2), Shift, Shift])
     = [ExecSql, Pause, Resume]"
  using buffer_watermarks [of "reader_start False" "JNum 1"]
    buffer_watermarks [of "buf_run (reader_start False) [Push (JNum 1)]" "JNum 2"]
    buffer_watermarks [of "buf_run (reader_start False) [Push (JNum 1), Push (JNum 2)]" "JNum 3"]
    buffer_watermarks [of "buf_run (reader_start False) [Push (JNum 1), Push (JNum 2), Shift]"]
  by (simp add: buf_run_def reader_start_def push_def shift_def emit_def Let_def low_def high_def)

text \<open>
  Three rows that arrive before any pull are all buffered: the length passes
  \<open>high\<close>.
\<close>

theorem buffer_exceeds_high:
  "length (received (buf_run (reader_start False) [Push (JNum 1), Push (JNum 2), Push (JNum 3)]))
     = 3 \<and>
   high < length (received (buf_run (reader_start False)
     [Push (JNum 1), Push (JNum 2), Push (JNum 3)])) \<and>
   received (reader_run (reader_start False) [RowEv (JNum 1), RowEv (JNum 2), RowEv (JNum 3)])
     = [JNum 1, JNum 2, JNum 3]"
  by (simp add: buf_run_def reader_run_def reader_start_def r_defs js_or_def Let_def low_def high_def)

subsection \<open>The release hook\<close>

lemma hook_step:
  assumes "wrapped s" "opts_close s = (filter is_resolution (out s) = [])"
    "filter is_hook_event (out s) = hook_after_first (filter is_resolution (out s))"
  shows "wrapped (reader_step s ev) \<and>
    opts_close (reader_step s ev) = (filter is_resolution (out (reader_step s ev)) = []) \<and>
    filter is_hook_event (out (reader_step s ev)) =
      hook_after_first (filter is_resolution (out (reader_step s ev)))"
  using assms
  by (cases ev; cases "received s")
     (auto simp: r_defs Let_def hook_after_first_def low_def split: option.splits list.splits)

lemma hook_run:
  "wrapped (reader_run (reader_start True) es) \<and>
    opts_close (reader_run (reader_start True) es) =
      (filter is_resolution (out (reader_run (reader_start True) es)) = []) \<and>
    filter is_hook_event (out (reader_run (reader_start True) es)) =
      hook_after_first (filter is_resolution (out (reader_run (reader_start True) es)))"
proof (induction es rule: rev_induct)
  case Nil
  show ?case by (simp add: reader_run_Nil reader_start_def hook_after_first_def)
next
  case (snoc e es)
  then show ?case
    unfolding reader_run_snoc by (intro hook_step) simp_all
qed

text \<open>
  C8, as the code has it. With a release hook, in every run of the reader the calls of
  the \<open>wait\<close> callbacks and of the hook are: nothing, as long as no pull and no
  stop has returned; otherwise the first return of a pull or of \<open>stop\<close>, then the
  hook, then the later returns. So the hook is called exactly once, right after the
  first pull or stop that returns, whatever it returns.
\<close>

theorem release_hook_once:
  "filter is_hook_event (out (reader_run (reader_start True) es)) =
     hook_after_first (filter is_resolution (out (reader_run (reader_start True) es)))"
  using hook_run [of es] by simp

theorem release_hook_once_witness:
  "filter is_hook_event (out (reader_run (reader_start True)
      [RowEv (JNum 1), Pull, CompleteEv JNull, Pull, Pull]))
     = [Resolve ReadCb JUndefined (JNum 1), CloseHook,
        Resolve ReadCb JUndefined JUndefined, Resolve ReadCb JUndefined JUndefined]"
  using release_hook_once [of "[RowEv (JNum 1), Pull, CompleteEv JNull, Pull, Pull]"]
  by (simp add: reader_run_def reader_start_def r_defs js_or_def Let_def low_def high_def
      hook_after_first_def)

text \<open>
  The hook is called after a first pull that returned a row, while a row is still
  buffered and the request is not completed.
\<close>

theorem release_hook_before_terminal_pull:
  "out (reader_run (reader_start True) [RowEv (JNum 1), RowEv (JNum 2), Pull])
     = [ExecSql, Pause, Resolve ReadCb JUndefined (JNum 1), CloseHook] \<and>
   received (reader_run (reader_start True) [RowEv (JNum 1), RowEv (JNum 2), Pull])
     = [JNum 2] \<and>
   \<not> r_done (reader_run (reader_start True) [RowEv (JNum 1), RowEv (JNum 2), Pull]) \<and>
   r_request (reader_run (reader_start True) [RowEv (JNum 1), RowEv (JNum 2), Pull])"
  by (simp add: reader_run_def reader_start_def r_defs js_or_def Let_def low_def high_def)

subsection \<open>A cached error\<close>

lemma failing_run:
  "truthy (r_error s) \<Longrightarrow>
   pull_results (reader_run s (replicate n Pull)) = pull_results s @ replicate n (Failed (r_error s)) \<and>
   received (reader_run s (replicate n Pull)) = received s"
proof (induction n arbitrary: s)
  case 0
  show ?case by (simp add: reader_run_Nil)
next
  case (Suc n)
  have st: "r_error (read s) = r_error s" "received (read s) = received s"
    "pull_results (read s) = pull_results s @ [Failed (r_error s)]"
    using Suc.prems
    by (simp_all add: read_def resolve_def withClose_finally_def release_request_def emit_def
        pull_results_def results_of_append outcome_of_def)
  from Suc.IH [of "read s"] Suc.prems st
  show ?case by (simp add: reader_run_Cons)
qed

text \<open>
  C2, as the code has it. The completion event carries an error while no pull is
  outstanding: the error is cached, the buffer is left as it is, and every pull from
  then on resolves with the error; the buffered rows are never returned.
\<close>

theorem cached_error_first:
  assumes "r_request s" "\<not> r_stopped s" "r_callback s = None" "\<not> truthy (r_error s)"
    "truthy err"
  shows "r_error (reader_step s (CompleteEv err)) = err \<and>
    received (reader_step s (CompleteEv err)) = received s \<and>
    pull_results (reader_run (reader_step s (CompleteEv err)) (replicate n Pull)) =
      pull_results s @ replicate n (Failed err) \<and>
    received (reader_run (reader_step s (CompleteEv err)) (replicate n Pull)) = received s"
proof -
  let ?t = "reader_step s (CompleteEv err)"
  have t: "r_error ?t = err" "received ?t = received s" "pull_results ?t = pull_results s"
    using assms
    by (simp_all add: on_complete_def send_def emit_def js_or_def pull_results_def
        results_of_append)
  from failing_run [of ?t n] t assms(5) show ?thesis by simp
qed

theorem cached_error_first_witness:
  "r_request (reader_run (reader_start False) [RowEv (JNum 1)]) \<and>
   \<not> r_stopped (reader_run (reader_start False) [RowEv (JNum 1)]) \<and>
   r_callback (reader_run (reader_start False) [RowEv (JNum 1)]) = None \<and>
   \<not> truthy (r_error (reader_run (reader_start False) [RowEv (JNum 1)])) \<and>
   truthy (JErr ''x'') \<and>
   received (reader_run (reader_start False) [RowEv (JNum 1)]) = [JNum 1] \<and>
   pull_results (reader_run
      (reader_step (reader_run (reader_start False) [RowEv (JNum 1)]) (CompleteEv (JErr ''x'')))
      [Pull, Pull]) = [Failed (JErr ''x''), Failed (JErr ''x'')] \<and>
   received (reader_run
      (reader_step (reader_run (reader_start False) [RowEv (JNum 1)]) (CompleteEv (JErr ''x'')))
      [Pull, Pull]) = [JNum 1]"
  using cached_error_first [of "reader_run (reader_start False) [RowEv (JNum 1)]" "JErr ''x''" "Suc (Suc 0)"]
  by (simp add: reader_run_def reader_start_def r_defs js_or_def Let_def high_def
      pull_results_def)

text \<open>
  One row is buffered when the completion event brings an error: the next pull
  fails with the error and the row is still in the buffer.
\<close>

theorem error_overtakes_buffered_row:
  "received (reader_run (reader_start False) [RowEv (JNum 1), CompleteEv (JErr ''x'')])
     = [JNum 1] \<and>
   r_error (reader_run (reader_start False) [RowEv (JNum 1), CompleteEv (JErr ''x'')])
     = JErr ''x'' \<and>
   pull_results (reader_run (reader_start False) [RowEv (JNum 1), CompleteEv (JErr ''x''), Pull])
     = [Failed (JErr ''x'')]"
  by (simp add: reader_run_def reader_start_def r_defs js_or_def Let_def high_def
      pull_results_def outcome_of_def)

subsection \<open>Falsy rows\<close>

lemma truthy_step:
  assumes "\<forall>x\<in>set (received s). truthy x"
    "\<forall>cb e r. Resolve cb e r \<in> set (out s) \<longrightarrow> r = JUndefined \<or> truthy r"
  shows "(\<forall>x\<in>set (received (reader_step s ev)). truthy x) \<and>
    (\<forall>cb e r. Resolve cb e r \<in> set (out (reader_step s ev)) \<longrightarrow> r = JUndefined \<or> truthy r)"
  using assms
  by (cases ev; cases "received s")
     (auto simp: r_defs Let_def low_def split: option.splits if_splits)

lemma truthy_run:
  "(\<forall>x\<in>set (received (reader_run (reader_start hc) es)). truthy x) \<and>
   (\<forall>cb e r. Resolve cb e r \<in> set (out (reader_run (reader_start hc) es)) \<longrightarrow>
      r = JUndefined \<or> truthy r)"
proof (induction es rule: rev_induct)
  case Nil
  show ?case by (simp add: reader_run_Nil reader_start_def)
next
  case (snoc ev es)
  then show ?case
    unfolding reader_run_snoc by (intro truthy_step) simp_all
qed

text \<open>
  C10, as the code has it. A row event delivers a falsy value. When the reader has been
  stopped, or the listeners of the request have been removed, nothing changes. Otherwise
  the value is not enqueued and \<open>done\<close> is set; an outstanding call is resolved with
  \<open>cb(null)\<close>, the end of the stream; with no call outstanding nothing is resolved,
  and the next pull reports a cached error if there is one, else returns the head of
  the buffer when a row is buffered, and the end of the stream only when the buffer is
  empty. In every run the buffer holds truthy values only, and a callback is only ever
  given \<open>undefined\<close> or a truthy value.
\<close>

theorem falsy_row_ends_stream:
  assumes "\<not> truthy v"
  shows "(if r_request s \<and> \<not> r_stopped s
     then
       received (reader_step s (RowEv v)) = received s \<and>
       r_done (reader_step s (RowEv v)) \<and>
       (case r_callback s of
          Some cb \<Rightarrow>
            filter is_resolution (out (reader_step s (RowEv v))) =
              filter is_resolution (out s) @ [Resolve cb JNull JUndefined]
        | None \<Rightarrow>
            filter is_resolution (out (reader_step s (RowEv v))) =
              filter is_resolution (out s) \<and>
            pull_results (reader_run s [RowEv v, Pull]) =
              pull_results s @
                [if truthy (r_error s) then Failed (r_error s)
                 else (case received s of
                         [] \<Rightarrow> EndOfStream
                       | x # xs \<Rightarrow> outcome_of JUndefined x)])
     else reader_step s (RowEv v) = s) \<and>
    (\<forall>x\<in>set (received (reader_run (reader_start hc) es)). truthy x) \<and>
    (\<forall>cb e r. Resolve cb e r \<in> set (out (reader_run (reader_start hc) es)) \<longrightarrow>
       r = JUndefined \<or> truthy r)"
proof -
  have idle: "reader_step s (RowEv v) = s" if "\<not> (r_request s \<and> \<not> r_stopped s)"
    using that by (auto simp: on_row_def)
  have a: "received (reader_step s (RowEv v)) = received s \<and> r_done (reader_step s (RowEv v))"
    if "r_request s \<and> \<not> r_stopped s"
    using that assms
    by (auto simp: on_row_def send_def resolve_def withClose_finally_def emit_def Let_def
        split: option.splits)
  have b: "(case r_callback s of
          Some cb \<Rightarrow>
            filter is_resolution (out (reader_step s (RowEv v))) =
              filter is_resolution (out s) @ [Resolve cb JNull JUndefined]
        | None \<Rightarrow>
            filter is_resolution (out (reader_step s (RowEv v))) =
              filter is_resolution (out s) \<and>
            pull_results (reader_run s [RowEv v, Pull]) =
              pull_results s @
                [if truthy (r_error s) then Failed (r_error s)
                 else (case received s of
                         [] \<Rightarrow> EndOfStream
                       | x # xs \<Rightarrow> outcome_of JUndefined x)])"
    if live: "r_request s \<and> \<not> r_stopped s"
  proof (cases "r_callback s")
    case None
    with assms live show ?thesis
      by (cases "received s")
         (auto simp: reader_run_def r_defs js_or_def Let_def low_def pull_results_def
            results_of_append outcome_of_def)
  next
    case (Some cb)
    with assms live show ?thesis
      by (auto simp: on_row_def send_def resolve_def withClose_finally_def emit_def Let_def)
  qed
  show ?thesis
  proof (cases "r_request s \<and> \<not> r_stopped s")
    case True
    show ?thesis
      unfolding if_P [OF True]
      using a [OF True] b [OF True] truthy_run [of hc es] by blast
  next
    case False
    show ?thesis
      unfolding if_not_P [OF False]
      using idle [OF False] truthy_run [of hc es] by blast
  qed
qed

theorem falsy_row_ends_stream_witness:
  "\<not> truthy (JNum 0) \<and>
   r_request (reader_run (reader_start False) [Pull]) \<and>
   \<not> r_stopped (reader_run (reader_start False) [Pull]) \<and>
   r_callback (reader_run (reader_start False) [Pull]) = Some ReadCb \<and>
   out (reader_run (reader_start False) [Pull, RowEv (JNum 0)])
     = [ExecSql, Resolve ReadCb JNull JUndefined] \<and>
   r_done (reader_run (reader_start False) [Pull, RowEv (JNum 0)]) \<and>
   received (reader_run (reader_start False) [Pull, RowEv (JNum 0)]) = [] \<and>
   r_request (reader_start False) \<and> \<not> r_stopped (reader_start False) \<and>
   r_callback (reader_start False) = None \<and> \<not> truthy (r_error (reader_start False)) \<and>
   out (reader_step (reader_start False) (RowEv (JNum 0))) = [ExecSql] \<and>
   r_done (reader_step (reader_start False) (RowEv (JNum 0))) \<and>
   pull_results (reader_run (reader_start False) [RowEv (JNum 0), Pull]) = [EndOfStream] \<and>
   r_stopped (reader_run (reader_start False) [Stop]) \<and>
   reader_step (reader_run (reader_start False) [Stop]) (RowEv (JNum 0))
     = reader_run (reader_start False) [Stop]"
  using falsy_row_ends_stream [of "JNum 0" "reader_run (reader_start False) [Pull]" False "[]"]
    falsy_row_ends_stream [of "JNum 0" "reader_start False" False "[]"]
    falsy_row_ends_stream [of "JNum 0" "reader_run (reader_start False) [Stop]" False "[]"]
  by (simp add: reader_run_def reader_start_def r_defs js_or_def Let_def pull_results_def
      outcome_of_def)

text \<open>
  A row is buffered when the falsy value arrives: the next pull returns that row, not
  the end of the stream. And a falsy value that arrives after \<open>stop\<close> does not set
  \<open>done\<close>.
\<close>

theorem falsy_row_buffered_row_first:
  "\<not> truthy (JNum 0) \<and>
   r_done (reader_run (reader_start False) [RowEv (JNum 1), RowEv (JNum 0)]) \<and>
   r_callback (reader_run (reader_start False) [RowEv (JNum 1), RowEv (JNum 0)]) = None \<and>
   pull_results (reader_run (reader_start False) [RowEv (JNum 1), RowEv (JNum 0), Pull])
     = [RowOut (JNum 1)] \<and>
   \<not> r_done (reader_run (reader_start False) [Stop, RowEv (JNum 0)]) \<and>
   out (reader_run (reader_start False) [Stop, RowEv (JNum 0)]) = [ExecSql, Cancel]"
  by (simp add: reader_run_def reader_start_def r_defs js_or_def Let_def low_def high_def
      pull_results_def outcome_of_def)

subsection \<open>Pulls and arrivals\<close>

lemma stream_inv_step:
  assumes "stream_inv s rows n" "streaming ev" "is_call ev \<longrightarrow> r_callback s = None"
  shows "stream_inv (reader_step s ev) (rows @ rows_of [ev]) (n + pulls_of [ev])"
proof (cases ev)
  case (RowEv v)
  with assms have v: "truthy v" by simp
  show ?thesis
  proof (cases "r_callback s")
    case None
    with assms(1) v RowEv show ?thesis
      by (auto simp: stream_inv_def on_row_def send_def push_def emit_def js_or_def Let_def
          pull_results_def stop_results_def results_of_append)
  next
    case (Some cb)
    with assms(1) v RowEv show ?thesis
      by (auto simp: stream_inv_def on_row_def send_def resolve_def withClose_finally_def emit_def
          Let_def pull_results_def stop_results_def results_of_append outcome_of_null_row)
  qed
next
  case (CompleteEv e)
  with assms show ?thesis by simp
next
  case Pull
  with assms have cb: "r_callback s = None" by simp
  show ?thesis
  proof (cases "received s")
    case Nil
    with assms(1) cb Pull show ?thesis
      by (auto simp: stream_inv_def read_def pull_results_def stop_results_def)
  next
    case (Cons x xs)
    with assms(1) cb Pull show ?thesis
      by (auto simp: stream_inv_def read_def shift_def resolve_def withClose_finally_def emit_def
          Let_def low_def pull_results_def stop_results_def results_of_append outcome_of_row)
  qed
next
  case Stop
  with assms show ?thesis by simp
qed

lemma stream_inv_run:
  assumes "\<forall>ev\<in>set pre. streaming ev" "one_outstanding (reader_start hc) pre"
  shows "stream_inv (reader_run (reader_start hc) pre) (rows_of pre) (pulls_of pre)"
  using assms
proof (induction pre rule: rev_induct)
  case Nil
  show ?case
    by (simp add: reader_run_Nil reader_start_def stream_inv_def pull_results_def stop_results_def)
next
  case (snoc ev pre)
  from snoc.prems have ev: "streaming ev" and pre: "\<forall>ev\<in>set pre. streaming ev"
    and oo: "one_outstanding (reader_start hc) pre"
    and call: "is_call ev \<longrightarrow> r_callback (reader_run (reader_start hc) pre) = None"
    by (auto simp: one_outstanding_append)
  from stream_inv_step [OF snoc.IH [OF pre oo] ev call]
  show ?case by (simp add: reader_run_snoc rows_of_append pulls_of_append)
qed

lemma drain_step:
  assumes "\<not> truthy (r_error s)" "r_done s"
  shows "\<not> truthy (r_error (read s)) \<and> r_done (read s) \<and>
    received (read s) = tl (received s) \<and> stop_results (read s) = stop_results s \<and>
    pull_results (read s) = pull_results s @
      [case received s of [] \<Rightarrow> EndOfStream | x # xs \<Rightarrow> outcome_of JUndefined x]"
  using assms
  by (cases "received s")
     (auto simp: read_def shift_def resolve_def withClose_finally_def release_request_def emit_def
        Let_def low_def pull_results_def stop_results_def results_of_append outcome_of_def)

lemma drain_run:
  assumes "\<not> truthy (r_error s)" "r_done s" "\<forall>v\<in>set (received s). truthy v"
  shows "pull_results (reader_run s (replicate k Pull)) =
      pull_results s @ take k (map RowOut (received s) @ replicate k EndOfStream) \<and>
    received (reader_run s (replicate k Pull)) = drop k (received s) \<and>
    stop_results (reader_run s (replicate k Pull)) = stop_results s"
  using assms
proof (induction k arbitrary: s)
  case 0
  show ?case by (simp add: reader_run_Nil)
next
  case (Suc k)
  note st = drain_step [OF Suc.prems(1,2)]
  have tr: "\<forall>v\<in>set (received (read s)). truthy v"
    using st Suc.prems(3) by (cases "received s") auto
  note ih = Suc.IH [of "read s", OF _ _ tr]
  have run: "reader_run s (replicate (Suc k) Pull) = reader_run (read s) (replicate k Pull)"
    by (simp add: reader_run_Cons)
  show ?case
  proof (cases "received s")
    case Nil
    with st ih show ?thesis
      by (simp add: reader_run_Cons replicate_append_same)
  next
    case (Cons x xs)
    with Suc.prems(3) have "truthy x" by simp
    with Cons st ih show ?thesis
      by (simp add: run outcome_of_row take_pad_Suc del: replicate.simps)
  qed
qed

lemma complete_after_stream:
  assumes "stream_inv s rows n" "\<not> truthy err"
  shows "\<not> truthy (r_error (reader_step s (CompleteEv err))) \<and>
    r_done (reader_step s (CompleteEv err)) \<and>
    received (reader_step s (CompleteEv err)) = received s \<and>
    stop_results (reader_step s (CompleteEv err)) = [] \<and>
    pull_results (reader_step s (CompleteEv err)) =
      pull_results s @ (case r_callback s of None \<Rightarrow> [] | Some cb \<Rightarrow> [EndOfStream])"
  using assms
  by (cases "r_callback s")
     (auto simp: stream_inv_def on_complete_def send_def resolve_def withClose_finally_def
        emit_def js_or_def Let_def pull_results_def stop_results_def results_of_append
        outcome_of_def)

text \<open>
  C1, as the code has it. Rows (truthy values) arrive and the caller pulls, one call
  at a time, in any interleaving; then the request completes without an error and the
  caller pulls \<open>k\<close> more times. Before the completion the pulls that have returned
  have returned the rows in their arrival order. After it all the pulls have returned:
  the rows in their arrival order, then the end of the stream for every further pull
  (as many times as the caller pulls).
\<close>

theorem pulls_in_arrival_order:
  assumes "\<forall>ev\<in>set pre. streaming ev" "one_outstanding (reader_start hc) pre" "\<not> truthy err"
  shows "pull_results (reader_run (reader_start hc) pre) =
      take (pulls_of pre) (map RowOut (rows_of pre)) \<and>
    pull_results (reader_run (reader_start hc) (pre @ CompleteEv err # replicate k Pull)) =
      take (pulls_of pre + k)
        (map RowOut (rows_of pre) @ replicate (pulls_of pre + k) EndOfStream)"
proof -
  let ?s = "reader_run (reader_start hc) pre"
  let ?t = "reader_step ?s (CompleteEv err)"
  have inv: "stream_inv ?s (rows_of pre) (pulls_of pre)"
    using assms(1,2) by (rule stream_inv_run)
  note t = complete_after_stream [OF inv assms(3)]
  have buf: "\<forall>v\<in>set (received ?t). truthy v"
    using t inv by (simp add: stream_inv_def)
  have run: "reader_run (reader_start hc) (pre @ CompleteEv err # replicate k Pull) =
      reader_run ?t (replicate k Pull)"
    by (simp add: reader_run_append reader_run_Cons)
  from drain_run [of ?t k] t buf
  have dr: "pull_results (reader_run ?t (replicate k Pull)) =
      pull_results ?t @ take k (map RowOut (received ?s) @ replicate k EndOfStream)"
    by simp
  show ?thesis
  proof (cases "r_callback ?s")
    case None
    with inv have rows: "map RowOut (rows_of pre) = pull_results ?s @ map RowOut (received ?s)"
      and n: "pulls_of pre = length (pull_results ?s)"
      by (simp_all add: stream_inv_def)
    have pad: "take k (map RowOut (received ?s) @ replicate (length (pull_results ?s) + k) EndOfStream)
        = take k (map RowOut (received ?s) @ replicate k EndOfStream)"
      by (rule take_pad_ge) simp
    show ?thesis
      unfolding run dr rows n using t None pad by simp
  next
    case (Some cb)
    with inv have rows: "pull_results ?s = map RowOut (rows_of pre)"
      and n: "pulls_of pre = Suc (length (rows_of pre))" and emp: "received ?s = []"
      by (simp_all add: stream_inv_def)
    show ?thesis
      unfolding run dr n using t Some rows emp by (simp add: replicate_append_same)
  qed
qed

theorem pulls_in_arrival_order_witness:
  "list_all streaming [RowEv (JNum 1), Pull, Pull, RowEv (JNum 2), RowEv (JNum 3)] \<and>
   one_outstanding (reader_start False)
     [RowEv (JNum 1), Pull, Pull, RowEv (JNum 2), RowEv (JNum 3)] \<and>
   \<not> truthy JNull \<and>
   pull_results (reader_run (reader_start False)
     [RowEv (JNum 1), Pull, Pull, RowEv (JNum 2), RowEv (JNum 3)])
     = [RowOut (JNum 1), RowOut (JNum 2)] \<and>
   pull_results (reader_run (reader_start False)
     ([RowEv (JNum 1), Pull, Pull, RowEv (JNum 2), RowEv (JNum 3)] @
      CompleteEv JNull # [Pull, Pull, Pull]))
     = [RowOut (JNum 1), RowOut (JNum 2), RowOut (JNum 3), EndOfStream, EndOfStream]"
  using pulls_in_arrival_order
    [of "[RowEv (JNum 1), Pull, Pull, RowEv (JNum 2), RowEv (JNum 3)]" False JNull
        "Suc (Suc (Suc 0))"]
  by (simp add: reader_run_def reader_start_def r_defs js_or_def Let_def low_def high_def
      pull_results_def outcome_of_def)

text \<open>
  The caller pulls three times after one row and the completion: the end of the
  stream is returned twice. And a falsy row that has arrived is not among the values
  returned.
\<close>

theorem end_of_stream_repeats:
  "pull_results (reader_run (reader_start False)
     [RowEv (JNum 1), CompleteEv JNull, Pull, Pull, Pull])
     = [RowOut (JNum 1), EndOfStream, EndOfStream] \<and>
   pull_results (reader_run (reader_start False)
     [RowEv (JNum 0), RowEv (JNum 1), CompleteEv JNull, Pull, Pull])
     = [RowOut (JNum 1), EndOfStream]"
  by (simp add: reader_run_def reader_start_def r_defs js_or_def Let_def low_def high_def
      pull_results_def outcome_of_def)

subsection \<open>Stop\<close>

lemma stopped_rows:
  "r_stopped s \<Longrightarrow> \<forall>ev\<in>set mid. is_row ev \<Longrightarrow> reader_run s mid = s"
proof (induction mid)
  case Nil
  show ?case by (simp add: reader_run_Nil)
next
  case (Cons ev mid)
  then show ?case by (cases ev) (simp_all add: reader_run_Cons on_row_def)
qed

lemma stop_then_complete:
  assumes "stream_inv s rows n" "r_callback s = None"
  shows "r_stopped (stop s) \<and>
    \<not> truthy (r_error (reader_step (stop s) (CompleteEv err))) \<and>
    r_done (reader_step (stop s) (CompleteEv err)) \<and>
    received (stop s) = received s \<and>
    received (reader_step (stop s) (CompleteEv err)) = received s \<and>
    stop_results (reader_step (stop s) (CompleteEv err)) = [EndOfStream] \<and>
    pull_results (reader_step (stop s) (CompleteEv err)) = pull_results s"
  using assms
  by (auto simp: stream_inv_def stop_def on_complete_def send_def resolve_def
        withClose_finally_def emit_def Let_def pull_results_def stop_results_def
        results_of_append outcome_of_def)

text \<open>
  C6, as the code has it. Rows (truthy values) arrive and the caller pulls, one call at
  a time; then the caller calls \<open>stop\<close>, no pull being outstanding; more rows
  arrive; the request completes, with any \<open>err\<close>; and the caller pulls \<open>k\<close>
  times. The rows that arrive after \<open>stop\<close> are not enqueued; \<open>stop\<close> returns
  once, without an error; the pulls after it return the rows that were buffered when
  \<open>stop\<close> was called, in their order, and then the end of the stream; and no
  pull ever fails.
\<close>

theorem stop_discards_error:
  assumes "\<forall>ev\<in>set pre. streaming ev" "one_outstanding (reader_start hc) (pre @ [Stop])"
    "\<forall>ev\<in>set mid. is_row ev"
  shows "received (reader_run (reader_start hc) (pre @ Stop # mid)) =
      received (reader_run (reader_start hc) pre) \<and>
    stop_results (reader_run (reader_start hc)
        (pre @ Stop # mid @ CompleteEv err # replicate k Pull)) = [EndOfStream] \<and>
    pull_results (reader_run (reader_start hc)
        (pre @ Stop # mid @ CompleteEv err # replicate k Pull)) =
      pull_results (reader_run (reader_start hc) pre) @
      take k (map RowOut (received (reader_run (reader_start hc) pre)) @
              replicate k EndOfStream) \<and>
    received (reader_run (reader_start hc)
        (pre @ Stop # mid @ CompleteEv err # replicate k Pull)) =
      drop k (received (reader_run (reader_start hc) pre)) \<and>
    (\<forall>e. Failed e \<notin> set (pull_results (reader_run (reader_start hc)
        (pre @ Stop # mid @ CompleteEv err # replicate k Pull))))"
proof -
  let ?s = "reader_run (reader_start hc) pre"
  let ?a = "stop ?s"
  let ?t = "reader_step ?a (CompleteEv err)"
  from assms(2) have oo: "one_outstanding (reader_start hc) pre" and cb: "r_callback ?s = None"
    by (simp_all add: one_outstanding_append)
  have inv: "stream_inv ?s (rows_of pre) (pulls_of pre)"
    using assms(1) oo by (rule stream_inv_run)
  note t = stop_then_complete [OF inv cb, of err]
  have mid: "reader_run ?a mid = ?a"
    using t assms(3) by (simp add: stopped_rows)
  have run1: "reader_run (reader_start hc) (pre @ Stop # mid) = ?a"
    using mid by (simp add: reader_run_append reader_run_Cons)
  have run2: "reader_run (reader_start hc) (pre @ Stop # mid @ CompleteEv err # replicate k Pull) =
      reader_run ?t (replicate k Pull)"
    using mid by (simp add: reader_run_append reader_run_Cons)
  have buf: "\<forall>v\<in>set (received ?t). truthy v"
    using t inv by (simp add: stream_inv_def)
  from drain_run [of ?t k] t buf
  have dr: "pull_results (reader_run ?t (replicate k Pull)) =
      pull_results ?s @ take k (map RowOut (received ?s) @ replicate k EndOfStream)"
    "received (reader_run ?t (replicate k Pull)) = drop k (received ?s)"
    "stop_results (reader_run ?t (replicate k Pull)) = [EndOfStream]"
    by simp_all
  from inv cb have rows: "pull_results ?s @ map RowOut (received ?s) = map RowOut (rows_of pre)"
    by (simp add: stream_inv_def)
  have "set (pull_results ?s) \<subseteq> set (map RowOut (rows_of pre))"
    unfolding rows [symmetric] by simp
  then have nf1: "Failed e \<notin> set (pull_results ?s)" for e by auto
  have nf2: "Failed e \<notin> set (take k (map RowOut (received ?s) @ replicate k EndOfStream))" for e
    by (auto dest!: in_set_takeD)
  show ?thesis
    unfolding run1 run2 dr using t nf1 nf2 by simp
qed

theorem stop_discards_error_witness:
  "list_all streaming [RowEv (JNum 1), RowEv (JNum 2), Pull] \<and>
   one_outstanding (reader_start False) ([RowEv (JNum 1), RowEv (JNum 2), Pull] @ [Stop]) \<and>
   list_all is_row [RowEv (JNum 3)] \<and>
   received (reader_run (reader_start False)
     ([RowEv (JNum 1), RowEv (JNum 2), Pull] @ Stop # [RowEv (JNum 3)])) = [JNum 2] \<and>
   stop_results (reader_run (reader_start False)
     ([RowEv (JNum 1), RowEv (JNum 2), Pull] @ Stop # [RowEv (JNum 3)] @
      CompleteEv (JErr ''x'') # [Pull, Pull, Pull])) = [EndOfStream] \<and>
   pull_results (reader_run (reader_start False)
     ([RowEv (JNum 1), RowEv (JNum 2), Pull] @ Stop # [RowEv (JNum 3)] @
      CompleteEv (JErr ''x'') # [Pull, Pull, Pull]))
     = [RowOut (JNum 1), RowOut (JNum 2), EndOfStream, EndOfStream]"
  using stop_discards_error
    [of "[RowEv (JNum 1), RowEv (JNum 2), Pull]" False "[RowEv (JNum 3)]" "JErr ''x''"
        "Suc (Suc (Suc 0))"]
  by (simp add: reader_run_def reader_start_def r_defs js_or_def Let_def low_def high_def
      pull_results_def stop_results_def outcome_of_def)

text \<open>
  A row is buffered when \<open>stop\<close> is called: the pull that follows the completion
  returns that row, not the end of the stream. And when a falsy row has set \<open>done\<close>
  before \<open>stop\<close> is called, \<open>stop\<close> returns at once without setting
  \<open>stopped\<close>, and the error of the completion is cached and reported.
\<close>

theorem pull_after_stop_returns_buffered_row:
  "stop_results (reader_run (reader_start False)
     [RowEv (JNum 1), Stop, CompleteEv (JErr ''x''), Pull]) = [EndOfStream] \<and>
   pull_results (reader_run (reader_start False)
     [RowEv (JNum 1), Stop, CompleteEv (JErr ''x''), Pull]) = [RowOut (JNum 1)] \<and>
   pull_results (reader_run (reader_start False)
     [RowEv (JNum 0), Stop, CompleteEv (JErr ''x''), Pull]) = [Failed (JErr ''x'')]"
  by (simp add: reader_run_def reader_start_def r_defs js_or_def Let_def low_def high_def
      pull_results_def stop_results_def outcome_of_def)

section \<open>The writer: lifecycle\<close>

lemmas w_defs = writer_write_def on_prepared_def w_complete_def processError_def w_send_def
  remove_listener_def wemit_def

lemma writer_run_append: "writer_run s (es @ fs) = writer_run (writer_run s es) fs"
  by (simp add: writer_run_def)

lemma writer_run_Cons: "writer_run s (e # es) = writer_run (writer_step s e) es"
  by (simp add: writer_run_def)

lemma writer_run_Nil: "writer_run s [] = s"
  by (simp add: writer_run_def)

subsection \<open>While preparing\<close>

lemma preparing_step:
  "isPreparing s \<Longrightarrow> ev \<noteq> Prepared \<Longrightarrow>
   isPreparing (writer_step s ev) \<and>
   filter is_execute (w_out (writer_step s ev)) = filter is_execute (w_out s)"
  by (cases ev) (auto simp: w_defs Let_def split: option.splits sum.splits)

lemma preparing_run:
  "isPreparing s \<Longrightarrow> Prepared \<notin> set es \<Longrightarrow>
   isPreparing (writer_run s es) \<and>
   filter is_execute (w_out (writer_run s es)) = filter is_execute (w_out s)"
  unfolding writer_run_def
proof (induction es arbitrary: s)
  case Nil
  then show ?case by simp
next
  case (Cons ev es)
  from Cons.prems have ne: "ev \<noteq> Prepared" and rest: "Prepared \<notin> set es" by auto
  from preparing_step [OF Cons.prems(1) ne] Cons.IH [of "writer_step s ev", OF _ rest]
  show ?case by simp
qed

lemma ready_step: "\<not> isPreparing s \<Longrightarrow> \<not> isPreparing (writer_step s ev)"
  by (cases ev) (auto simp: w_defs Let_def split: option.splits sum.splits)

lemma ready_run: "\<not> isPreparing s \<Longrightarrow> \<not> isPreparing (writer_run s es)"
  unfolding writer_run_def
  by (induction es arbitrary: s) (simp_all add: ready_step)

lemma isPreparing_run_start: "isPreparing (writer_run writer_start es) = (Prepared \<notin> set es)"
proof (cases "Prepared \<in> set es")
  case False
  then show ?thesis using preparing_run [of writer_start es] by (simp add: writer_start_def)
next
  case True
  then obtain pre post where es: "es = pre @ Prepared # post"
    by (auto dest: split_list)
  have "\<not> isPreparing (writer_step (writer_run writer_start pre) Prepared)"
    by (simp add: on_prepared_def Let_def wemit_def split: option.splits)
  then have "\<not> isPreparing (writer_run writer_start es)"
    unfolding es writer_run_append writer_run_Cons by (rule ready_run)
  with True show ?thesis by simp
qed

lemma filter_execute_empty: "filter is_execute as = [] \<longleftrightarrow> (\<forall>pv. Execute pv \<notin> set as)"
proof (induction as)
  case Nil
  then show ?case by simp
next
  case (Cons a as)
  then show ?case by (cases a) auto
qed

text \<open>
  C4. No execute is issued before the prepared event: in a run of the writer without a
  prepared event \<open>isPreparing\<close> still holds and no \<open>Execute\<close> has been issued; a
  write of a row that arrives while \<open>isPreparing\<close> only stores its callback and its
  parameter set as the pending set (nothing is sent); and the prepared handler is the
  one that issues the execute of the pending set.
\<close>

theorem no_execute_before_prepared:
  "(Prepared \<notin> set es \<longrightarrow>
      isPreparing (writer_run writer_start es) \<and>
      (\<forall>pv. Execute pv \<notin> set (w_out (writer_run writer_start es)))) \<and>
   (isPreparing s \<and> \<not> w_done s \<and> obj \<noteq> JUndefined \<and> vals_of obj = Inr vals \<longrightarrow>
      writer_write cb obj s =
        s\<lparr>w_callback := Some cb, pendingParamValues := Some (paramValues vals)\<rparr>) \<and>
   (isPreparing s \<and> \<not> shouldUnprepare s \<and> pendingParamValues s = Some pv \<longrightarrow>
      w_out (writer_step s Prepared) = w_out s @ [Execute pv])"
proof (intro conjI impI)
  assume np: "Prepared \<notin> set es"
  show "isPreparing (writer_run writer_start es)"
    using np by (simp add: isPreparing_run_start)
  have "filter is_execute (w_out (writer_run writer_start es)) = []"
    using preparing_run [of writer_start es] np by (simp add: writer_start_def)
  then show "\<forall>pv. Execute pv \<notin> set (w_out (writer_run writer_start es))"
    using filter_execute_empty by blast
next
  assume "isPreparing s \<and> \<not> w_done s \<and> obj \<noteq> JUndefined \<and> vals_of obj = Inr vals"
  then show "writer_write cb obj s =
        s\<lparr>w_callback := Some cb, pendingParamValues := Some (paramValues vals)\<rparr>"
    by (simp add: writer_write_def Let_def)
next
  assume "isPreparing s \<and> \<not> shouldUnprepare s \<and> pendingParamValues s = Some pv"
  then show "w_out (writer_step s Prepared) = w_out s @ [Execute pv]"
    by (simp add: on_prepared_def Let_def wemit_def)
qed

theorem no_execute_before_prepared_witness:
  "Prepared \<notin> set [Write 0 (JArr [JNum 7]), Completion JNull, Write 1 (JArr [JNum 8])] \<and>
   isPreparing (writer_run writer_start
      [Write 0 (JArr [JNum 7]), Completion JNull, Write 1 (JArr [JNum 8])]) \<and>
   (\<forall>pv. Execute pv \<notin> set (w_out (writer_run writer_start
      [Write 0 (JArr [JNum 7]), Completion JNull, Write 1 (JArr [JNum 8])]))) \<and>
   isPreparing (writer_run writer_start [Write 0 (JArr [JNum 7])]) \<and>
   \<not> w_done (writer_run writer_start [Write 0 (JArr [JNum 7])]) \<and>
   vals_of (JArr [JNum 8]) = Inr [JNum 8] \<and>
   pendingParamValues (writer_write 1 (JArr [JNum 8])
      (writer_run writer_start [Write 0 (JArr [JNum 7])])) = Some [(''p0'', JNum 8)] \<and>
   w_out (writer_write 1 (JArr [JNum 8]) (writer_run writer_start [Write 0 (JArr [JNum 7])]))
     = [DescribeColumns, Prepare, AddErrorListener] \<and>
   \<not> shouldUnprepare (writer_run writer_start [Write 0 (JArr [JNum 7])]) \<and>
   pendingParamValues (writer_run writer_start [Write 0 (JArr [JNum 7])])
     = Some [(''p0'', JNum 7)] \<and>
   w_out (writer_step (writer_run writer_start [Write 0 (JArr [JNum 7])]) Prepared)
     = [DescribeColumns, Prepare, AddErrorListener, Execute [(''p0'', JNum 7)]]"
  using no_execute_before_prepared
    [of "[Write 0 (JArr [JNum 7]), Completion JNull, Write 1 (JArr [JNum 8])]"
        "writer_run writer_start [Write 0 (JArr [JNum 7])]"
        "JArr [JNum 8]" "[JNum 8]" 1 "[(''p0'', JNum 7)]"]
  by (simp add: writer_run_def writer_start_def w_defs paramValues_def Let_def)

text \<open>
  C7, as the code has it. The completion callback of the writer's request tells the
  firings apart by \<open>isPreparing\<close>, which holds exactly until the prepared event (it is
  cleared by the prepared handler, not by a firing): a firing before the prepared event
  changes nothing and resolves no call; a firing after it resolves the outstanding
  write or close call with its \<open>err\<close> and clears the callback.
\<close>

theorem completion_channel:
  "isPreparing (writer_run writer_start es) = (Prepared \<notin> set es) \<and>
   (Prepared \<notin> set es \<longrightarrow>
      writer_step (writer_run writer_start es) (Completion err) = writer_run writer_start es) \<and>
   (Prepared \<in> set es \<longrightarrow>
      (\<forall>cb. w_callback (writer_run writer_start es) = Some cb \<longrightarrow>
         writer_step (writer_run writer_start es) (Completion err) =
           (writer_run writer_start es)
             \<lparr>w_callback := None,
              w_out := w_out (writer_run writer_start es) @ [WResolve cb err]\<rparr>))"
  by (simp add: isPreparing_run_start w_complete_def w_send_def wemit_def)

theorem completion_channel_witness:
  "Prepared \<notin> set [Write 0 (JArr [JNum 7])] \<and>
   writer_step (writer_run writer_start [Write 0 (JArr [JNum 7])]) (Completion JNull)
     = writer_run writer_start [Write 0 (JArr [JNum 7])] \<and>
   Prepared \<in> set [Write 0 (JArr [JNum 7]), Completion JNull, Prepared] \<and>
   w_callback (writer_run writer_start [Write 0 (JArr [JNum 7]), Completion JNull, Prepared])
     = Some 0 \<and>
   w_out (writer_step
      (writer_run writer_start [Write 0 (JArr [JNum 7]), Completion JNull, Prepared])
      (Completion JNull))
     = [DescribeColumns, Prepare, AddErrorListener, Execute [(''p0'', JNum 7)],
        WResolve 0 JNull]"
  using completion_channel [of "[Write 0 (JArr [JNum 7])]" JNull]
    completion_channel [of "[Write 0 (JArr [JNum 7]), Completion JNull, Prepared]" JNull]
  by (simp add: writer_run_def writer_start_def w_defs paramValues_def Let_def)

text \<open>
  The first firing of the completion callback comes after the prepared event: it
  resolves the write. And a second firing that comes before the prepared event is
  swallowed like the first: the write is still outstanding.
\<close>

theorem first_firing_after_prepared_resolves:
  "w_out (writer_run writer_start [Write 0 (JArr [JNum 7]), Prepared, Completion JNull])
     = [DescribeColumns, Prepare, AddErrorListener, Execute [(''p0'', JNum 7)],
        WResolve 0 JNull] \<and>
   w_out (writer_run writer_start
      [Write 0 (JArr [JNum 7]), Completion JNull, Completion JNull])
     = [DescribeColumns, Prepare, AddErrorListener] \<and>
   w_callback (writer_run writer_start
      [Write 0 (JArr [JNum 7]), Completion JNull, Completion JNull]) = Some 0"
  by (simp add: writer_run_def writer_start_def w_defs paramValues_def Let_def)

subsection \<open>After the end of the writing\<close>

lemma writer_step_done: "w_done s \<Longrightarrow> w_done (writer_step s ev)"
  by (cases ev) (auto simp: w_defs Let_def split: option.splits sum.splits)

lemma writer_step_callback_done:
  "w_done s \<Longrightarrow> w_callback s \<noteq> Some cb \<Longrightarrow> w_callback (writer_step s ev) \<noteq> Some cb"
  by (cases ev) (auto simp: w_defs Let_def split: option.splits sum.splits)

lemma writer_step_resolve_done:
  "w_done s \<Longrightarrow> w_callback s \<noteq> Some cb \<Longrightarrow> WResolve cb e \<notin> set (w_out s) \<Longrightarrow>
   WResolve cb e \<notin> set (w_out (writer_step s ev))"
  by (cases ev) (auto simp: w_defs Let_def split: option.splits sum.splits)

lemma writer_run_resolve_done:
  "w_done s \<Longrightarrow> w_callback s \<noteq> Some cb \<Longrightarrow> WResolve cb e \<notin> set (w_out s) \<Longrightarrow>
   WResolve cb e \<notin> set (w_out (writer_run s es))"
  unfolding writer_run_def
proof (induction es arbitrary: s)
  case Nil
  then show ?case by simp
next
  case (Cons ev es)
  show ?case
    using Cons.IH [of "writer_step s ev"] Cons.prems
    by (simp add: writer_step_done writer_step_callback_done writer_step_resolve_done)
qed

text \<open>
  C9. Once \<open>done\<close> is set, a further write call returns at once: the writer's state,
  with the commands and callback calls it has issued, is unchanged; and the callback
  of that call (one that is neither the stored callback nor already called) is never
  called, whatever events follow.
\<close>

theorem write_after_done:
  "w_done s \<Longrightarrow>
   writer_write cb obj s = s \<and>
   (w_callback s \<noteq> Some cb \<and> (\<forall>e. WResolve cb e \<notin> set (w_out s)) \<longrightarrow>
      (\<forall>es e. WResolve cb e \<notin> set (w_out (writer_run (writer_write cb obj s) es))))"
  by (simp add: writer_write_def writer_run_resolve_done)

theorem write_after_done_witness:
  "w_done (writer_run writer_start [Write 0 JUndefined]) \<and>
   writer_write 1 (JArr [JNum 7]) (writer_run writer_start [Write 0 JUndefined])
     = writer_run writer_start [Write 0 JUndefined] \<and>
   w_callback (writer_run writer_start [Write 0 JUndefined]) \<noteq> Some 1 \<and>
   (\<forall>e. WResolve 1 e \<notin> set (w_out (writer_run writer_start [Write 0 JUndefined]))) \<and>
   (\<forall>e. WResolve 1 e \<notin> set (w_out (writer_run
       (writer_write 1 (JArr [JNum 7]) (writer_run writer_start [Write 0 JUndefined]))
       [Prepared, Completion JNull])))"
  using write_after_done
    [of "writer_run writer_start [Write 0 JUndefined]" 1 "JArr [JNum 7]"]
  by (simp add: writer_run_def writer_start_def w_defs Let_def)

subsection \<open>Closing while the request is being prepared\<close>

lemma filter_resolve_empty:
  "filter is_resolve as = [] \<longleftrightarrow> (\<forall>c e. WResolve c e \<notin> set as)"
proof (induction as)
  case Nil
  then show ?case by simp
next
  case (Cons a as)
  then show ?case by (cases a) auto
qed

lemma unopened_step:
  assumes "\<not> w_done s" "w_callback s = None" "isPreparing s" "pendingParamValues s = None"
    "\<not> shouldUnprepare s" "\<not> is_write ev" "ev \<noteq> Prepared"
  shows "\<not> w_done (writer_step s ev) \<and> w_callback (writer_step s ev) = None \<and>
    isPreparing (writer_step s ev) \<and> pendingParamValues (writer_step s ev) = None \<and>
    \<not> shouldUnprepare (writer_step s ev) \<and>
    filter is_unprepare (w_out (writer_step s ev)) = filter is_unprepare (w_out s) \<and>
    filter is_resolve (w_out (writer_step s ev)) = filter is_resolve (w_out s)"
  using assms by (cases ev) (auto simp: w_defs Let_def)

lemma unopened_run:
  assumes "\<not> w_done s" "w_callback s = None" "isPreparing s" "pendingParamValues s = None"
    "\<not> shouldUnprepare s" "\<forall>ev\<in>set pre. \<not> is_write ev \<and> ev \<noteq> Prepared"
  shows "\<not> w_done (writer_run s pre) \<and> w_callback (writer_run s pre) = None \<and>
    isPreparing (writer_run s pre) \<and> pendingParamValues (writer_run s pre) = None \<and>
    \<not> shouldUnprepare (writer_run s pre) \<and>
    filter is_unprepare (w_out (writer_run s pre)) = filter is_unprepare (w_out s) \<and>
    filter is_resolve (w_out (writer_run s pre)) = filter is_resolve (w_out s)"
  using assms
proof (induction pre arbitrary: s)
  case Nil
  then show ?case by (simp add: writer_run_Nil)
next
  case (Cons ev pre)
  from Cons.prems have ev: "\<not> is_write ev" "ev \<noteq> Prepared"
    and rest: "\<forall>ev\<in>set pre. \<not> is_write ev \<and> ev \<noteq> Prepared" by auto
  note st = unopened_step [OF Cons.prems(1-5) ev]
  from st Cons.IH [of "writer_step s ev", OF _ _ _ _ _ rest]
  show ?case by (simp add: writer_run_Cons)
qed

lemma closed_step:
  assumes "w_done s" "\<not> isPreparing s" "\<not> shouldUnprepare s" "pendingParamValues s = None"
  shows "w_done (writer_step s ev) \<and> \<not> isPreparing (writer_step s ev) \<and>
    \<not> shouldUnprepare (writer_step s ev) \<and> pendingParamValues (writer_step s ev) = None \<and>
    filter is_execute (w_out (writer_step s ev)) = filter is_execute (w_out s) \<and>
    filter is_unprepare (w_out (writer_step s ev)) = filter is_unprepare (w_out s)"
  using assms by (cases ev) (auto simp: w_defs Let_def split: option.splits)

lemma closed_run:
  assumes "w_done s" "\<not> isPreparing s" "\<not> shouldUnprepare s" "pendingParamValues s = None"
  shows "filter is_execute (w_out (writer_run s es)) = filter is_execute (w_out s) \<and>
    filter is_unprepare (w_out (writer_run s es)) = filter is_unprepare (w_out s)"
  using assms
proof (induction es arbitrary: s)
  case Nil
  then show ?case by (simp add: writer_run_Nil)
next
  case (Cons ev es)
  note st = closed_step [OF Cons.prems, of ev]
  from st Cons.IH [of "writer_step s ev"]
  show ?case by (simp add: writer_run_Cons)
qed

lemma closing_wait_step:
  assumes "w_done s" "isPreparing s" "\<not> err_listener s" "ev \<noteq> Prepared"
  shows "writer_step s ev = s"
  using assms by (cases ev) (auto simp: w_defs Let_def)

lemma closing_run:
  assumes "w_done s" "isPreparing s" "shouldUnprepare s" "pendingParamValues s = None"
    "\<not> err_listener s"
  shows "filter is_execute (w_out (writer_run s es)) = filter is_execute (w_out s) \<and>
    filter is_unprepare (w_out (writer_run s es)) =
      filter is_unprepare (w_out s) @ (if Prepared \<in> set es then [Unprepare] else []) \<and>
    (Prepared \<notin> set es \<longrightarrow> writer_run s es = s)"
  using assms
proof (induction es arbitrary: s)
  case Nil
  then show ?case by (simp add: writer_run_Nil)
next
  case (Cons ev es)
  show ?case
  proof (cases "ev = Prepared")
    case True
    let ?t = "writer_step s Prepared"
    from Cons.prems have t: "w_done ?t" "\<not> isPreparing ?t" "\<not> shouldUnprepare ?t"
      "pendingParamValues ?t = None"
      "filter is_execute (w_out ?t) = filter is_execute (w_out s)"
      "filter is_unprepare (w_out ?t) = filter is_unprepare (w_out s) @ [Unprepare]"
      by (simp_all add: w_defs Let_def)
    from closed_run [OF t(1-4), of es] t(5,6) True
    show ?thesis by (simp add: writer_run_Cons)
  next
    case False
    from closing_wait_step [OF Cons.prems(1,2,5) False]
    have same: "writer_step s ev = s" .
    from Cons.IH [OF Cons.prems] False same
    show ?thesis by (simp add: writer_run_Cons)
  qed
qed

text \<open>
  C5. The writer is closed (the write function receives \<open>undefined\<close>) before the
  prepared event and before any other write call; completion and error events may have
  come before. Then, whatever events follow: no \<open>Execute\<close> is ever issued; the
  \<open>Unprepare\<close> commands issued are exactly one if a prepared event has followed and
  none otherwise, so that the one unprepare is issued by the prepared handler; and as
  long as no prepared event has followed no callback has been called, so that the
  close call is still outstanding.
\<close>

theorem close_while_preparing:
  assumes pre: "\<forall>ev\<in>set pre. \<not> is_write ev \<and> ev \<noteq> Prepared"
  shows "(\<forall>pv. Execute pv \<notin> set (w_out (writer_run writer_start (pre @ Write cb JUndefined # post)))) \<and>
    filter is_unprepare (w_out (writer_run writer_start (pre @ Write cb JUndefined # post))) =
      (if Prepared \<in> set post then [Unprepare] else []) \<and>
    (Prepared \<notin> set post \<longrightarrow>
      (\<forall>c e. WResolve c e \<notin> set (w_out (writer_run writer_start (pre @ Write cb JUndefined # post)))))"
proof -
  let ?p = "writer_run writer_start pre"
  let ?c = "writer_step ?p (Write cb JUndefined)"
  have p: "\<not> w_done ?p" "w_callback ?p = None" "isPreparing ?p" "pendingParamValues ?p = None"
    "\<not> shouldUnprepare ?p" "filter is_unprepare (w_out ?p) = []" "filter is_resolve (w_out ?p) = []"
    using unopened_run [of writer_start pre, OF _ _ _ _ _ pre]
    by (simp_all add: writer_start_def)
  have pe: "filter is_execute (w_out ?p) = []"
    using preparing_run [of writer_start pre] pre by (auto simp: writer_start_def)
  have c: "w_done ?c" "isPreparing ?c" "shouldUnprepare ?c" "pendingParamValues ?c = None"
    "\<not> err_listener ?c" "filter is_execute (w_out ?c) = []" "filter is_unprepare (w_out ?c) = []"
    "filter is_resolve (w_out ?c) = []"
    using p pe by (simp_all add: w_defs Let_def)
  have run: "writer_run writer_start (pre @ Write cb JUndefined # post) = writer_run ?c post"
    by (simp add: writer_run_append writer_run_Cons)
  note cl = closing_run [OF c(1-5), of post]
  have e: "filter is_execute (w_out (writer_run ?c post)) = []"
    using cl c(6) by simp
  have u: "filter is_unprepare (w_out (writer_run ?c post)) = (if Prepared \<in> set post then [Unprepare] else [])"
    using cl c(7) by simp
  have r: "Prepared \<notin> set post \<Longrightarrow> filter is_resolve (w_out (writer_run ?c post)) = []"
    using cl c(8) by simp
  show ?thesis
    unfolding run using e u r filter_execute_empty filter_resolve_empty by blast
qed

theorem close_while_preparing_witness:
  "\<not> is_write (Completion JNull) \<and> Completion JNull \<noteq> Prepared \<and>
   (\<forall>pv. Execute pv \<notin> set (w_out (writer_run writer_start
      ([Completion JNull] @ Write 0 JUndefined # [Completion JNull, Prepared, Completion JNull])))) \<and>
   w_out (writer_run writer_start
      ([Completion JNull] @ Write 0 JUndefined # [Completion JNull, Prepared, Completion JNull]))
     = [DescribeColumns, Prepare, AddErrorListener, RemoveErrorListener, Unprepare,
        WResolve 0 JNull] \<and>
   Prepared \<in> set [Completion JNull, Prepared, Completion JNull] \<and>
   filter is_unprepare (w_out (writer_run writer_start
      ([Completion JNull] @ Write 0 JUndefined # [Completion JNull, Prepared, Completion JNull])))
     = [Unprepare]"
  using close_while_preparing
    [of "[Completion JNull]" 0 "[Completion JNull, Prepared, Completion JNull]"]
  by (simp add: writer_run_def writer_start_def w_defs Let_def)

end
